theory Spec2Isabelle
  imports Main
begin

section \<open>webdriver.TestCase: one test per cycle, each phase run to idle\<close>

text \<open>
  The source is \<^verbatim>\<open>javascript/webdriver-jsapi/testcase.js\<close>: the two methods
  \<^verbatim>\<open>cycleTests\<close> and \<^verbatim>\<open>runSingleTest_\<close> of \<^verbatim>\<open>webdriver.TestCase\<close>.
  Everything they call lives elsewhere (the base class \<^verbatim>\<open>goog.testing.TestCase\<close>, the
  promise library and the application singleton) and is modelled below from what the
  specification says about it.

  The execution is single-threaded and every continuation waits for the settlement before
  it, so a promise is modelled by its settlement together with the state in which it
  settles, and the whole run is a function on states. The state carries a trace: every
  call to a collaborator and every write to a shared counter is appended to it in program
  order, stamped with the clock.
\<close>

subsection \<open>Data\<close>

text \<open>The outcome of a promise: resolved (the resolved value is never read by the source)
  or rejected with the thrown value.\<close>

datatype 'e settlement = Ok | Err 'e

text \<open>
  Modelled from the spec: the type \<^verbatim>\<open>goog.testing.TestCase.Test\<close> is declared outside the
  source file. The spec's TestDescriptor is \<^verbatim>\<open>{name, scope, setUp, body, tearDown}\<close>.
  The source reads \<^verbatim>\<open>test.name\<close>, \<^verbatim>\<open>test.ref\<close> (the spec's body) and \<^verbatim>\<open>test.scope\<close>;
  the descriptor's own setUp and tearDown are the fields \<open>descSetUp\<close> and
  \<open>descTearDown\<close> here, since \<open>setUp\<close> and \<open>tearDown\<close> name the fields of the
  test case that the source reads through \<^verbatim>\<open>this\<close>.
\<close>

record ('f, 'sc) test =
  name :: string
  scope :: 'sc
  descSetUp :: 'f
  ref :: 'f
  descTearDown :: 'f

text \<open>The only callback the source ever hands to \<^verbatim>\<open>timeout\<close>:
  \<^verbatim>\<open>function() { self.cycleTests(); }\<close>.\<close>

datatype callback = CallCycleTests

datatype ('f, 'sc, 'e) event =
    Next
  | Finalize
  | SetCurrentTestName string
  | IncRunCount
  | Log string
  | Schedule string 'f 'sc
  | Settle string "'e settlement"
  | DoSuccess "('f, 'sc) test"
  | DoError "('f, 'sc) test" 'e
  | Timeout callback nat

text \<open>
  The test case object (\<^verbatim>\<open>this\<close>), with the state of its collaborators: the registry's
  iterator (\<open>tests\<close>, what \<^verbatim>\<open>next()\<close> has not yet returned), the fields \<^verbatim>\<open>this.setUp\<close> and
  \<^verbatim>\<open>this.tearDown\<close>, \<^verbatim>\<open>this.result_.runCount\<close>, the static
  \<^verbatim>\<open>goog.testing.TestCase.currentTestName\<close>, the state of the application and of everything
  the phase functions touch (\<open>world\<close>), the clock, the pending timers with their due times,
  and the trace. The run counter is a JavaScript number that starts at 0 and is only ever
  incremented, so it holds a non-negative integer: it is a \<open>nat\<close> here, and \<^verbatim>\<open>++\<close> on it
  is \<open>increment\<close> below, not the successor.
\<close>

record ('f, 'sc, 'e, 'w) testcase =
  tests :: "('f, 'sc) test list"
  setUp :: 'f
  tearDown :: 'f
  runCount :: nat
  currentTestName :: "string option"
  world :: 'w
  clock :: nat
  timers :: "(nat \<times> callback) list"
  trace :: "(nat \<times> ('f, 'sc, 'e) event) list"

text \<open>
  Modelled from the spec: \<^verbatim>\<open>webdriver.promise.Application\<close> is outside the source file.
  Running a function bound to a scope inside the application until the application is idle
  changes the world, takes some time and ends in a settlement: \<open>Err\<close> with the thrown
  value when the function throws "synchronously or asynchronously during scheduled
  execution". The application is a parameter of the model.
\<close>

type_synonym ('f, 'sc, 'e, 'w) application = "'f \<Rightarrow> 'sc \<Rightarrow> 'w \<Rightarrow> 'e settlement \<times> 'w \<times> nat"

type_synonym ('e, 'st) promise = "'e settlement \<times> 'st"

subsection \<open>The collaborators\<close>

definition emit ::
  "('f, 'sc, 'e) event \<Rightarrow> ('f, 'sc, 'e, 'w) testcase \<Rightarrow> ('f, 'sc, 'e, 'w) testcase" where
  "emit ev s = s\<lparr>trace := trace s @ [(clock s, ev)]\<rparr>"

text \<open>Modelled from the spec: \<^verbatim>\<open>next() \<rightarrow> TestDescriptor | none\<close> "advances an iterator over
  registered tests", which is finite. It is \<open>nextTest\<close> here, \<open>next\<close> being a keyword.\<close>

definition nextTest ::
  "('f, 'sc, 'e, 'w) testcase \<Rightarrow> ('f, 'sc) test option \<times> ('f, 'sc, 'e, 'w) testcase" where
  "nextTest s =
     (case tests s of
        [] \<Rightarrow> (None, emit Next s)
      | t # ts \<Rightarrow> (Some t, emit Next (s\<lparr>tests := ts\<rparr>)))"

text \<open>Modelled from the spec: \<^verbatim>\<open>log\<close>, \<^verbatim>\<open>doSuccess\<close>, \<^verbatim>\<open>doError\<close> and \<^verbatim>\<open>finalize\<close> are
  "reporting sinks; none return values consumed by the core".\<close>

definition finalize :: "('f, 'sc, 'e, 'w) testcase \<Rightarrow> ('f, 'sc, 'e, 'w) testcase" where
  "finalize s = emit Finalize s"

definition log :: "string \<Rightarrow> ('f, 'sc, 'e, 'w) testcase \<Rightarrow> ('f, 'sc, 'e, 'w) testcase" where
  "log message s = emit (Log message) s"

definition doSuccess ::
  "('f, 'sc) test \<Rightarrow> ('f, 'sc, 'e, 'w) testcase \<Rightarrow> ('f, 'sc, 'e, 'w) testcase" where
  "doSuccess t s = emit (DoSuccess t) s"

definition doError ::
  "('f, 'sc) test \<Rightarrow> 'e \<Rightarrow> ('f, 'sc, 'e, 'w) testcase \<Rightarrow> ('f, 'sc, 'e, 'w) testcase" where
  "doError t e s = emit (DoError t e) s"

text \<open>Modelled from the spec: \<^verbatim>\<open>timeout(callback, delayMs)\<close> "schedules callback to run after
  delayMs".\<close>

definition timeout ::
  "callback \<Rightarrow> nat \<Rightarrow> ('f, 'sc, 'e, 'w) testcase \<Rightarrow> ('f, 'sc, 'e, 'w) testcase" where
  "timeout cb delay s = emit (Timeout cb delay) (s\<lparr>timers := timers s @ [(clock s + delay, cb)]\<rparr>)"

text \<open>
  The operator \<^verbatim>\<open>++\<close> on a number that holds a non-negative integer. A number is an IEEE 754
  double, and the sum with 1 is rounded to the nearest double, ties to the even significand.
  Below \<open>2 ^ 53\<close> the sum is exact. From \<open>2 ^ 53\<close> up to \<open>2 ^ 54\<close> the doubles are the even
  integers and \<open>n + 1\<close> is a tie between \<open>n\<close> and \<open>n + 2\<close>, which goes to the multiple of
  4: at \<open>2 ^ 53\<close> itself the counter stays where it is. From \<open>2 ^ 54\<close> on \<open>n + 1\<close> rounds
  back to \<open>n\<close>.
\<close>

definition increment :: "nat \<Rightarrow> nat" where
  "increment n =
     (if n < 2 ^ 53 then n + 1
      else if n < 2 ^ 54 \<and> n mod 4 = 2 then n + 2
      else n)"

text \<open>The two writes of \<^verbatim>\<open>cycleTests\<close> to shared state:
  \<^verbatim>\<open>goog.testing.TestCase.currentTestName = test.name\<close> and \<^verbatim>\<open>this.result_.runCount++\<close>.\<close>

definition setCurrentTestName ::
  "string \<Rightarrow> ('f, 'sc, 'e, 'w) testcase \<Rightarrow> ('f, 'sc, 'e, 'w) testcase" where
  "setCurrentTestName n s = emit (SetCurrentTestName n) (s\<lparr>currentTestName := Some n\<rparr>)"

definition incRunCount :: "('f, 'sc, 'e, 'w) testcase \<Rightarrow> ('f, 'sc, 'e, 'w) testcase" where
  "incRunCount s = emit IncRunCount (s\<lparr>runCount := increment (runCount s)\<rparr>)"

text \<open>
  Modelled from the spec: \<^verbatim>\<open>scheduleAndWaitForIdle(description, fn)\<close> submits the task and
  gives a handle that settles once the application is idle.
\<close>

definition scheduleAndWaitForIdle ::
  "('f, 'sc, 'e, 'w) application \<Rightarrow> string \<Rightarrow> 'f \<Rightarrow> 'sc \<Rightarrow> ('f, 'sc, 'e, 'w) testcase \<Rightarrow>
     ('e, ('f, 'sc, 'e, 'w) testcase) promise" where
  "scheduleAndWaitForIdle app description fn sc s =
     (let s1 = emit (Schedule description fn sc) s
      in case app fn sc (world s1) of
           (r, w, d) \<Rightarrow> (r, emit (Settle description r) (s1\<lparr>world := w, clock := clock s1 + d\<rparr>)))"

text \<open>
  Modelled from the spec: the promise library is outside the source file. A success
  continuation runs when the promise before it resolved and is skipped, the rejection
  passing on, when it was rejected; a failure handler runs when the promise before it was
  rejected, and what the handler returns settles the chain again ("attaching a failure
  handler after a success-handler chain recovers the chain").
\<close>

definition addCallback :: "('e, 'st) promise \<Rightarrow> ('st \<Rightarrow> ('e, 'st) promise) \<Rightarrow> ('e, 'st) promise" where
  "addCallback p callback = (case p of (Ok, st) \<Rightarrow> callback st | (Err e, st) \<Rightarrow> (Err e, st))"

definition addErrback ::
  "('e, 'st) promise \<Rightarrow> ('e \<Rightarrow> 'st \<Rightarrow> ('e, 'st) promise) \<Rightarrow> ('e, 'st) promise" where
  "addErrback p errback = (case p of (Ok, st) \<Rightarrow> (Ok, st) | (Err e, st) \<Rightarrow> errback e st)"

definition thenDo :: "('e, 'st) promise \<Rightarrow> ('st \<Rightarrow> 'st) \<Rightarrow> 'st" where
  "thenDo p callback = (case p of (Ok, st) \<Rightarrow> callback st | (Err e, st) \<Rightarrow> st)"

subsection \<open>The source\<close>

text \<open>
  \<^verbatim>\<open>runSingleTest_(test, onError)\<close>, named \<open>runSingleTest\<close> since a constant's name cannot
  end in an underscore. The state threaded through the chain is the pair of the caller's
  closure variables and the test case, since \<^verbatim>\<open>onError\<close> is a closure of the caller; the
  phases themselves only see the test case. \<^verbatim>\<open>this.setUp\<close> and \<^verbatim>\<open>this.tearDown\<close> are read when
  the chain is built, and every phase is bound to \<^verbatim>\<open>test.scope\<close>.
\<close>

definition runSingleTest ::
  "('f, 'sc, 'e, 'w) application \<Rightarrow> ('f, 'sc) test \<Rightarrow>
   ('e \<Rightarrow> 'c \<times> ('f, 'sc, 'e, 'w) testcase \<Rightarrow> ('e, 'c \<times> ('f, 'sc, 'e, 'w) testcase) promise) \<Rightarrow>
   'c \<times> ('f, 'sc, 'e, 'w) testcase \<Rightarrow> ('e, 'c \<times> ('f, 'sc, 'e, 'w) testcase) promise" where
  "runSingleTest app t onError st =
     (let this = snd st;
          scheduleAndWait = (\<lambda>description fn (c, s).
             case scheduleAndWaitForIdle app description fn (scope t) s of (r, s') \<Rightarrow> (r, (c, s')))
      in addErrback
           (addCallback
              (addErrback
                 (addCallback
                    (scheduleAndWait ''setUp()'' (setUp this) st)
                    (scheduleAndWait (name t @ ''()'') (ref t)))
                 onError)
              (scheduleAndWait ''tearDown()'' (tearDown this)))
           onError)"

text \<open>
  The nested function \<^verbatim>\<open>onError(e)\<close> of \<^verbatim>\<open>cycleTests\<close>. It is a closure over \<^verbatim>\<open>test\<close>,
  \<^verbatim>\<open>hadError\<close> and \<^verbatim>\<open>self\<close>: the test is a parameter here, and the other two are the state
  of the chain. It returns normally, which resolves the promise of the errback.
\<close>

definition onError ::
  "('f, 'sc) test \<Rightarrow> 'e \<Rightarrow> bool \<times> ('f, 'sc, 'e, 'w) testcase \<Rightarrow>
     ('e, bool \<times> ('f, 'sc, 'e, 'w) testcase) promise" where
  "onError t e st = (case st of (hadError, self) \<Rightarrow> (Ok, (True, doError t e self)))"

text \<open>\<^verbatim>\<open>cycleTests()\<close>. The closure variable \<^verbatim>\<open>hadError\<close> is the first component of the
  chain's state, \<^verbatim>\<open>self\<close> the second.\<close>

definition cycleTests ::
  "('f, 'sc, 'e, 'w) application \<Rightarrow> ('f, 'sc, 'e, 'w) testcase \<Rightarrow> ('f, 'sc, 'e, 'w) testcase" where
  "cycleTests app this =
     (case nextTest this of
        (None, s) \<Rightarrow> finalize s
      | (Some t, s) \<Rightarrow>
          (let s1 = setCurrentTestName (name t) s;
               s2 = incRunCount s1;
               s3 = log (''Running test: '' @ name t) s2;
               hadError = False
           in snd (thenDo (runSingleTest app t (onError t) (hadError, s3))
                     (\<lambda>(hadError, self).
                        (hadError,
                         timeout CallCycleTests 100
                           (if hadError then self else doSuccess t self))))))"

subsection \<open>The timers\<close>

text \<open>
  Modelled from the spec: the timer behind \<^verbatim>\<open>timeout\<close> belongs to the runtime. A pending
  callback runs once its delay has elapsed: firing the oldest pending timer moves the clock
  to its due time, unless the clock is already past it, and runs the callback.
\<close>

definition fire ::
  "('f, 'sc, 'e, 'w) application \<Rightarrow> ('f, 'sc, 'e, 'w) testcase \<Rightarrow> ('f, 'sc, 'e, 'w) testcase" where
  "fire app s =
     (case timers s of
        [] \<Rightarrow> s
      | (due, CallCycleTests) # rest \<Rightarrow>
          cycleTests app (s\<lparr>timers := rest, clock := max (clock s) due\<rparr>))"

text \<open>The run after a first call of \<^verbatim>\<open>cycleTests\<close>: timers fire until none is pending.\<close>

function run ::
  "('f, 'sc, 'e, 'w) application \<Rightarrow> ('f, 'sc, 'e, 'w) testcase \<Rightarrow> ('f, 'sc, 'e, 'w) testcase" where
  "run app s = (if timers s = [] then s else run app (fire app s))"
  by pat_completeness auto
termination
proof (relation "measure (\<lambda>(app, s). 2 * length (tests s) + length (timers s))")
  show "wf (measure (\<lambda>(app, s). 2 * length (tests s) + length (timers s)))"
    by simp
next
  fix app :: "('f, 'sc, 'e, 'w) application" and s :: "('f, 'sc, 'e, 'w) testcase"
  assume pending: "timers s \<noteq> []"
  have cycle: "tests (cycleTests app p) = tl (tests p) \<and>
      length (timers (cycleTests app p)) =
        (if tests p = [] then length (timers p) else Suc (length (timers p)))"
    for p :: "('f, 'sc, 'e, 'w) testcase"
    by (cases "tests p")
      (simp_all add: cycleTests_def runSingleTest_def onError_def scheduleAndWaitForIdle_def
        nextTest_def finalize_def log_def doSuccess_def doError_def timeout_def
        setCurrentTestName_def incRunCount_def emit_def
        addCallback_def addErrback_def thenDo_def Let_def
        split: prod.splits settlement.splits)
  from pending obtain due cb rest where t: "timers s = (due, cb) # rest"
    by (cases "timers s") auto
  have "cb = CallCycleTests"
    by (cases cb) simp
  with t have f: "fire app s = cycleTests app (s\<lparr>timers := rest, clock := max (clock s) due\<rparr>)"
    by (simp add: fire_def)
  show "((app, fire app s), (app, s)) \<in> measure (\<lambda>(app, s). 2 * length (tests s) + length (timers s))"
    using t by (cases "tests s") (simp_all add: f cycle)
qed

subsection \<open>Observing a run\<close>

text \<open>What was appended to the trace between two states, without the time stamps, and what
  one call of \<^verbatim>\<open>cycleTests\<close> appends.\<close>

definition events_since ::
  "('f, 'sc, 'e, 'w) testcase \<Rightarrow> ('f, 'sc, 'e, 'w) testcase \<Rightarrow> ('f, 'sc, 'e) event list" where
  "events_since s s' = map snd (drop (length (trace s)) (trace s'))"

definition cycle_events ::
  "('f, 'sc, 'e, 'w) application \<Rightarrow> ('f, 'sc, 'e, 'w) testcase \<Rightarrow> ('f, 'sc, 'e) event list" where
  "cycle_events app s = events_since s (cycleTests app s)"

text \<open>The phases submitted to the application, in order: description, function, receiver.\<close>

fun submissions :: "('f, 'sc, 'e) event list \<Rightarrow> (string \<times> 'f \<times> 'sc) list" where
  "submissions [] = []"
| "submissions (Schedule d f sc # evs) = (d, f, sc) # submissions evs"
| "submissions (_ # evs) = submissions evs"

text \<open>The values the phases were rejected with, in order.\<close>

fun failures :: "('f, 'sc, 'e) event list \<Rightarrow> 'e list" where
  "failures [] = []"
| "failures (Settle d (Err e) # evs) = e # failures evs"
| "failures (_ # evs) = failures evs"

text \<open>The calls of \<^verbatim>\<open>doError\<close> and of \<^verbatim>\<open>doSuccess\<close>, in order.\<close>

fun errorReports :: "('f, 'sc, 'e) event list \<Rightarrow> (('f, 'sc) test \<times> 'e) list" where
  "errorReports [] = []"
| "errorReports (DoError t e # evs) = (t, e) # errorReports evs"
| "errorReports (_ # evs) = errorReports evs"

fun successReports :: "('f, 'sc, 'e) event list \<Rightarrow> ('f, 'sc) test list" where
  "successReports [] = []"
| "successReports (DoSuccess t # evs) = t # successReports evs"
| "successReports (_ # evs) = successReports evs"

text \<open>All three phases of test \<open>t\<close> succeed when run one after the other from state \<open>s\<close>.\<close>

definition allPhasesSucceed ::
  "('f, 'sc, 'e, 'w) application \<Rightarrow> ('f, 'sc, 'e, 'w) testcase \<Rightarrow> ('f, 'sc) test \<Rightarrow> bool" where
  "allPhasesSucceed app s t =
     (case app (setUp s) (scope t) (world s) of
        (r1, w1, d1) \<Rightarrow>
          (case app (ref t) (scope t) w1 of
             (r2, w2, d2) \<Rightarrow>
               (case app (tearDown s) (scope t) w2 of
                  (r3, w3, d3) \<Rightarrow> r1 = Ok \<and> r2 = Ok \<and> r3 = Ok)))"

subsection \<open>Auxiliary notions for the proofs\<close>

text \<open>The report that follows a settlement of tearDown when an error was already seen.\<close>

definition reported ::
  "('f, 'sc) test \<Rightarrow> nat \<Rightarrow> 'e settlement \<Rightarrow> (nat \<times> ('f, 'sc, 'e) event) list" where
  "reported t c r = (case r of Ok \<Rightarrow> [] | Err e \<Rightarrow> [(c, DoError t e)])"

text \<open>A settlement described as \<^verbatim>\<open>tearDown()\<close>; a submission described as \<^verbatim>\<open>setUp()\<close>.\<close>

fun isTearDownSettled :: "nat \<times> ('f, 'sc, 'e) event \<Rightarrow> bool" where
  "isTearDownSettled (c, Settle d r) = (d = ''tearDown()'')"
| "isTearDownSettled _ = False"

fun isSetUpSubmitted :: "nat \<times> ('f, 'sc, 'e) event \<Rightarrow> bool" where
  "isSetUpSubmitted (c, Schedule d f sc) = (d = ''setUp()'')"
| "isSetUpSubmitted _ = False"

text \<open>No \<^verbatim>\<open>setUp()\<close> is submitted after a \<^verbatim>\<open>tearDown()\<close> has settled.\<close>

fun noSetUpAfterTearDown :: "(nat \<times> ('f, 'sc, 'e) event) list \<Rightarrow> bool" where
  "noSetUpAfterTearDown [] = True"
| "noSetUpAfterTearDown (x # xs) =
     ((if isTearDownSettled x then list_all (\<lambda>y. \<not> isSetUpSubmitted y) xs else True) \<and>
      noSetUpAfterTearDown xs)"

text \<open>Every \<^verbatim>\<open>setUp()\<close> submitted after a \<^verbatim>\<open>tearDown()\<close> has settled is submitted at least
  100 time units later.\<close>

definition spaced :: "(nat \<times> ('f, 'sc, 'e) event) list \<Rightarrow> bool" where
  "spaced tr =
     (\<forall>l r c1 c2 x f sc.
        tr = l @ r \<and> (c1, Settle ''tearDown()'' x) \<in> set l \<and>
        (c2, Schedule ''setUp()'' f sc) \<in> set r \<longrightarrow> c1 + 100 \<le> c2)"

text \<open>The invariant of the run, on the part of the trace from position \<open>n\<close> on.\<close>

definition run_inv :: "nat \<Rightarrow> ('f, 'sc, 'e, 'w) testcase \<Rightarrow> bool" where
  "run_inv n s =
     (n \<le> length (trace s) \<and> spaced (drop n (trace s)) \<and>
      list_all (\<lambda>x. fst x \<le> clock s) (drop n (trace s)) \<and>
      (timers s = [] \<or> timers s = [(clock s + 100, CallCycleTests)]))"

subsection \<open>A concrete application and concrete test cases\<close>

text \<open>Phase functions that do nothing or throw a given value; every phase bumps the world
  and takes some time.\<close>

datatype fn = Noop | Throws string

fun exApp :: "(fn, nat, string, nat) application" where
  "exApp Noop sc w = (Ok, Suc w, 3)"
| "exApp (Throws e) sc w = (Err e, Suc w, 7)"

definition mkTest :: "string \<Rightarrow> fn \<Rightarrow> (fn, nat) test" where
  "mkTest n body = \<lparr>name = n, scope = 1, descSetUp = Throws ''unused'', ref = body,
     descTearDown = Throws ''unused''\<rparr>"

definition mkCase :: "fn \<Rightarrow> fn \<Rightarrow> (fn, nat) test list \<Rightarrow> (fn, nat, string, nat) testcase" where
  "mkCase su td ts = \<lparr>tests = ts, setUp = su, tearDown = td, runCount = 0,
     currentTestName = None, world = 0, clock = 0, timers = [], trace = []\<rparr>"

subsection \<open>One cycle, path by path\<close>

lemmas sink_defs = nextTest_def finalize_def log_def doSuccess_def doError_def timeout_def
  setCurrentTestName_def incRunCount_def emit_def

lemmas chain_defs = addCallback_def addErrback_def thenDo_def onError_def

text \<open>The counter counts by ones below \<open>2 ^ 53\<close> and stops there.\<close>

lemma increment_exact: "n < 2 ^ 53 \<Longrightarrow> increment n = n + 1"
  by (simp add: increment_def)

lemma increment_at_limit: "increment (2 ^ 53) = 2 ^ 53"
  by (simp add: increment_def)

lemma scheduleAndWaitForIdle_eq:
  "scheduleAndWaitForIdle app description fn sc s =
     (case app fn sc (world s) of
        (r, w, d) \<Rightarrow>
          (r, s\<lparr>world := w, clock := clock s + d,
                trace := trace s @ [(clock s, Schedule description fn sc),
                                    (clock s + d, Settle description r)]\<rparr>))"
  by (simp add: scheduleAndWaitForIdle_def emit_def Let_def split: prod.splits)

lemma cycleTests_exhausted:
  assumes "tests s = []"
  shows "cycleTests app s = s\<lparr>trace := trace s @ [(clock s, Next), (clock s, Finalize)]\<rparr>"
  using assms by (simp add: cycleTests_def sink_defs)

lemma cycleTests_setUp_failed:
  assumes "tests s = t # ts"
    and "app (setUp s) (scope t) (world s) = (Err e1, w1, d1)"
    and "app (tearDown s) (scope t) w1 = (r3, w3, d3)"
  shows "cycleTests app s =
    s\<lparr>tests := ts, runCount := increment (runCount s), currentTestName := Some (name t),
      world := w3, clock := clock s + d1 + d3,
      timers := timers s @ [(clock s + d1 + d3 + 100, CallCycleTests)],
      trace := trace s @
        [(clock s, Next), (clock s, SetCurrentTestName (name t)), (clock s, IncRunCount),
         (clock s, Log (''Running test: '' @ name t)),
         (clock s, Schedule ''setUp()'' (setUp s) (scope t)),
         (clock s + d1, Settle ''setUp()'' (Err e1)),
         (clock s + d1, DoError t e1),
         (clock s + d1, Schedule ''tearDown()'' (tearDown s) (scope t)),
         (clock s + d1 + d3, Settle ''tearDown()'' r3)] @
        reported t (clock s + d1 + d3) r3 @
        [(clock s + d1 + d3, Timeout CallCycleTests 100)]\<rparr>"
  using assms
  by (simp add: cycleTests_def runSingleTest_def scheduleAndWaitForIdle_eq sink_defs chain_defs
      reported_def Let_def split: settlement.splits)

lemma cycleTests_body_failed:
  assumes "tests s = t # ts"
    and "app (setUp s) (scope t) (world s) = (Ok, w1, d1)"
    and "app (ref t) (scope t) w1 = (Err e2, w2, d2)"
    and "app (tearDown s) (scope t) w2 = (r3, w3, d3)"
  shows "cycleTests app s =
    s\<lparr>tests := ts, runCount := increment (runCount s), currentTestName := Some (name t),
      world := w3, clock := clock s + d1 + d2 + d3,
      timers := timers s @ [(clock s + d1 + d2 + d3 + 100, CallCycleTests)],
      trace := trace s @
        [(clock s, Next), (clock s, SetCurrentTestName (name t)), (clock s, IncRunCount),
         (clock s, Log (''Running test: '' @ name t)),
         (clock s, Schedule ''setUp()'' (setUp s) (scope t)),
         (clock s + d1, Settle ''setUp()'' Ok),
         (clock s + d1, Schedule (name t @ ''()'') (ref t) (scope t)),
         (clock s + d1 + d2, Settle (name t @ ''()'') (Err e2)),
         (clock s + d1 + d2, DoError t e2),
         (clock s + d1 + d2, Schedule ''tearDown()'' (tearDown s) (scope t)),
         (clock s + d1 + d2 + d3, Settle ''tearDown()'' r3)] @
        reported t (clock s + d1 + d2 + d3) r3 @
        [(clock s + d1 + d2 + d3, Timeout CallCycleTests 100)]\<rparr>"
  using assms
  by (simp add: cycleTests_def runSingleTest_def scheduleAndWaitForIdle_eq sink_defs chain_defs
      reported_def Let_def split: settlement.splits)

lemma cycleTests_body_passed:
  assumes "tests s = t # ts"
    and "app (setUp s) (scope t) (world s) = (Ok, w1, d1)"
    and "app (ref t) (scope t) w1 = (Ok, w2, d2)"
    and "app (tearDown s) (scope t) w2 = (r3, w3, d3)"
  shows "cycleTests app s =
    s\<lparr>tests := ts, runCount := increment (runCount s), currentTestName := Some (name t),
      world := w3, clock := clock s + d1 + d2 + d3,
      timers := timers s @ [(clock s + d1 + d2 + d3 + 100, CallCycleTests)],
      trace := trace s @
        [(clock s, Next), (clock s, SetCurrentTestName (name t)), (clock s, IncRunCount),
         (clock s, Log (''Running test: '' @ name t)),
         (clock s, Schedule ''setUp()'' (setUp s) (scope t)),
         (clock s + d1, Settle ''setUp()'' Ok),
         (clock s + d1, Schedule (name t @ ''()'') (ref t) (scope t)),
         (clock s + d1 + d2, Settle (name t @ ''()'') Ok),
         (clock s + d1 + d2, Schedule ''tearDown()'' (tearDown s) (scope t)),
         (clock s + d1 + d2 + d3, Settle ''tearDown()'' r3)] @
        (case r3 of Ok \<Rightarrow> [(clock s + d1 + d2 + d3, DoSuccess t)]
                  | Err e \<Rightarrow> [(clock s + d1 + d2 + d3, DoError t e)]) @
        [(clock s + d1 + d2 + d3, Timeout CallCycleTests 100)]\<rparr>"
  using assms
  by (simp add: cycleTests_def runSingleTest_def scheduleAndWaitForIdle_eq sink_defs chain_defs
      Let_def split: settlement.splits)

text \<open>The three ways through a cycle that has a test to run.\<close>

lemma cycle_paths [case_names setUp_failed body_failed body_passed]:
  obtains
    (setUp_failed) e1 w1 d1 r3 w3 d3 where
      "app (setUp s) (scope t) (world s) = (Err e1, w1, d1)"
      "app (tearDown s) (scope t) w1 = (r3, w3, d3)"
  | (body_failed) w1 d1 e2 w2 d2 r3 w3 d3 where
      "app (setUp s) (scope t) (world s) = (Ok, w1, d1)"
      "app (ref t) (scope t) w1 = (Err e2, w2, d2)"
      "app (tearDown s) (scope t) w2 = (r3, w3, d3)"
  | (body_passed) w1 d1 w2 d2 r3 w3 d3 where
      "app (setUp s) (scope t) (world s) = (Ok, w1, d1)"
      "app (ref t) (scope t) w1 = (Ok, w2, d2)"
      "app (tearDown s) (scope t) w2 = (r3, w3, d3)"
proof -
  obtain r1 w1 d1 where p1: "app (setUp s) (scope t) (world s) = (r1, w1, d1)"
    by (cases "app (setUp s) (scope t) (world s)") auto
  obtain r2 w2 d2 where p2: "app (ref t) (scope t) w1 = (r2, w2, d2)"
    by (cases "app (ref t) (scope t) w1") auto
  obtain r3 w3 d3 where p3: "app (tearDown s) (scope t) w2 = (r3, w3, d3)"
    by (cases "app (tearDown s) (scope t) w2") auto
  obtain r3' w3' d3' where p3': "app (tearDown s) (scope t) w1 = (r3', w3', d3')"
    by (cases "app (tearDown s) (scope t) w1") auto
  show thesis
  proof (cases r1)
    case Ok
    show thesis
    proof (cases r2)
      case Ok
      with \<open>r1 = Ok\<close> p1 p2 p3 show thesis by (auto intro: body_passed)
    next
      case (Err e2)
      with \<open>r1 = Ok\<close> p1 p2 p3 show thesis by (auto intro: body_failed)
    qed
  next
    case (Err e1)
    with p1 p3' show thesis by (auto intro: setUp_failed)
  qed
qed

text \<open>The events of the cycle on each path.\<close>

lemma cycle_events_exhausted:
  assumes "tests s = []"
  shows "cycle_events app s = [Next, Finalize]"
  by (simp add: cycle_events_def events_since_def cycleTests_exhausted [where app = app, OF assms])

lemma cycle_events_setUp_failed:
  assumes "tests s = t # ts"
    and "app (setUp s) (scope t) (world s) = (Err e1, w1, d1)"
    and "app (tearDown s) (scope t) w1 = (r3, w3, d3)"
  shows "cycle_events app s =
     [Next, SetCurrentTestName (name t), IncRunCount, Log (''Running test: '' @ name t),
      Schedule ''setUp()'' (setUp s) (scope t), Settle ''setUp()'' (Err e1), DoError t e1,
      Schedule ''tearDown()'' (tearDown s) (scope t), Settle ''tearDown()'' r3] @
     (case r3 of Ok \<Rightarrow> [] | Err e \<Rightarrow> [DoError t e]) @
     [Timeout CallCycleTests 100]"
  by (simp add: cycle_events_def events_since_def cycleTests_setUp_failed [where app = app, OF assms]
      reported_def split: settlement.splits)

lemma cycle_events_body_failed:
  assumes "tests s = t # ts"
    and "app (setUp s) (scope t) (world s) = (Ok, w1, d1)"
    and "app (ref t) (scope t) w1 = (Err e2, w2, d2)"
    and "app (tearDown s) (scope t) w2 = (r3, w3, d3)"
  shows "cycle_events app s =
     [Next, SetCurrentTestName (name t), IncRunCount, Log (''Running test: '' @ name t),
      Schedule ''setUp()'' (setUp s) (scope t), Settle ''setUp()'' Ok,
      Schedule (name t @ ''()'') (ref t) (scope t), Settle (name t @ ''()'') (Err e2),
      DoError t e2,
      Schedule ''tearDown()'' (tearDown s) (scope t), Settle ''tearDown()'' r3] @
     (case r3 of Ok \<Rightarrow> [] | Err e \<Rightarrow> [DoError t e]) @
     [Timeout CallCycleTests 100]"
  by (simp add: cycle_events_def events_since_def cycleTests_body_failed [where app = app, OF assms]
      reported_def split: settlement.splits)

lemma cycle_events_body_passed:
  assumes "tests s = t # ts"
    and "app (setUp s) (scope t) (world s) = (Ok, w1, d1)"
    and "app (ref t) (scope t) w1 = (Ok, w2, d2)"
    and "app (tearDown s) (scope t) w2 = (r3, w3, d3)"
  shows "cycle_events app s =
     [Next, SetCurrentTestName (name t), IncRunCount, Log (''Running test: '' @ name t),
      Schedule ''setUp()'' (setUp s) (scope t), Settle ''setUp()'' Ok,
      Schedule (name t @ ''()'') (ref t) (scope t), Settle (name t @ ''()'') Ok,
      Schedule ''tearDown()'' (tearDown s) (scope t), Settle ''tearDown()'' r3] @
     (case r3 of Ok \<Rightarrow> [DoSuccess t] | Err e \<Rightarrow> [DoError t e]) @
     [Timeout CallCycleTests 100]"
  by (simp add: cycle_events_def events_since_def cycleTests_body_passed [where app = app, OF assms]
      split: settlement.splits)

subsection \<open>The order of the phases\<close>

text \<open>
  C1. In a cycle that has a test to run, the phases submitted to the application are, in
  this order: setUp; the body, if and only if setUp settled without error; tearDown.
  Nothing else is submitted, so tearDown runs exactly once whatever setUp and the body did.
\<close>

theorem phases_in_order:
  assumes "tests s = t # ts"
  shows "submissions (cycle_events app s) =
           (''setUp()'', setUp s, scope t) #
           (case fst (app (setUp s) (scope t) (world s)) of
              Ok \<Rightarrow> [(name t @ ''()'', ref t, scope t)]
            | Err e \<Rightarrow> []) @
           [(''tearDown()'', tearDown s, scope t)]"
proof (cases rule: cycle_paths [of app s t])
  case setUp_failed
  then show ?thesis
    by (simp add: cycle_events_setUp_failed [where app = app, OF assms setUp_failed]
        split: settlement.splits)
next
  case body_failed
  then show ?thesis
    by (simp add: cycle_events_body_failed [where app = app, OF assms body_failed]
        split: settlement.splits)
next
  case body_passed
  then show ?thesis
    by (simp add: cycle_events_body_passed [where app = app, OF assms body_passed]
        split: settlement.splits)
qed

theorem phases_in_order_witness:
  "tests (mkCase Noop Noop [mkTest ''t1'' (Throws ''boom'')]) = [mkTest ''t1'' (Throws ''boom'')] \<and>
   submissions (cycle_events exApp (mkCase Noop Noop [mkTest ''t1'' (Throws ''boom'')])) =
     [(''setUp()'', Noop, 1), (''t1()'', Throws ''boom'', 1), (''tearDown()'', Noop, 1)]"
proof -
  have h: "tests (mkCase Noop Noop [mkTest ''t1'' (Throws ''boom'')]) =
      mkTest ''t1'' (Throws ''boom'') # []"
    by (simp add: mkCase_def)
  show ?thesis
    using h phases_in_order [where app = exApp, OF h]
    by (simp add: mkCase_def mkTest_def)
qed

subsection \<open>Further facts about one cycle and about the run\<close>

declare run.simps [simp del]

lemma run_idle: "timers s = [] \<Longrightarrow> run app s = s"
  by (subst run.simps) simp

lemma cycle_events_all_passed:
  assumes "tests s = t # ts" and "allPhasesSucceed app s t"
  shows "cycle_events app s =
     [Next, SetCurrentTestName (name t), IncRunCount, Log (''Running test: '' @ name t),
      Schedule ''setUp()'' (setUp s) (scope t), Settle ''setUp()'' Ok,
      Schedule (name t @ ''()'') (ref t) (scope t), Settle (name t @ ''()'') Ok,
      Schedule ''tearDown()'' (tearDown s) (scope t), Settle ''tearDown()'' Ok,
      DoSuccess t, Timeout CallCycleTests 100]"
proof (cases rule: cycle_paths [of app s t])
  case setUp_failed
  with assms(2) show ?thesis
    by (simp add: allPhasesSucceed_def split: prod.splits)
next
  case body_failed
  with assms(2) show ?thesis
    by (simp add: allPhasesSucceed_def split: prod.splits)
next
  case (body_passed w1 d1 w2 d2 r3 w3 d3)
  with assms(2) have "r3 = Ok"
    by (simp add: allPhasesSucceed_def)
  with body_passed show ?thesis
    by (simp add: cycle_events_body_passed [where app = app, OF assms(1) body_passed])
qed

lemma last_cycle_events:
  assumes "tests s = t # ts"
  shows "last (cycle_events app s) = Timeout CallCycleTests 100"
proof (cases rule: cycle_paths [of app s t])
  case setUp_failed
  then show ?thesis
    by (simp add: cycle_events_setUp_failed [where app = app, OF assms setUp_failed])
next
  case body_failed
  then show ?thesis
    by (simp add: cycle_events_body_failed [where app = app, OF assms body_failed])
next
  case body_passed
  then show ?thesis
    by (simp add: cycle_events_body_passed [where app = app, OF assms body_passed])
qed

lemma runSingleTest_recovers: "fst (runSingleTest app t (onError t) st) = Ok"
  by (cases st)
    (simp add: runSingleTest_def scheduleAndWaitForIdle_eq chain_defs Let_def
      split: prod.splits settlement.splits)

subsection \<open>A failing setUp\<close>

text \<open>
  C2, as stated, at a test case whose setUp and tearDown both throw the value \<^verbatim>\<open>bad\<close>: setUp
  fails with that value, and \<^verbatim>\<open>doError\<close> is called with the test and that value twice, not
  once.
\<close>

theorem setUp_failure_reported_twice:
  "fst (exApp (setUp (mkCase (Throws ''bad'') (Throws ''bad'') [mkTest ''t2'' Noop]))
         (scope (mkTest ''t2'' Noop))
         (world (mkCase (Throws ''bad'') (Throws ''bad'') [mkTest ''t2'' Noop]))) = Err ''bad'' \<and>
   count_list
     (errorReports (cycle_events exApp (mkCase (Throws ''bad'') (Throws ''bad'') [mkTest ''t2'' Noop])))
     (mkTest ''t2'' Noop, ''bad'') = 2"
proof -
  let ?s = "mkCase (Throws ''bad'') (Throws ''bad'') [mkTest ''t2'' Noop]"
  let ?t = "mkTest ''t2'' Noop"
  have h1: "tests ?s = ?t # []"
    by (simp add: mkCase_def)
  have h2: "exApp (setUp ?s) (scope ?t) (world ?s) = (Err ''bad'', 1, 7)"
    by (simp add: mkCase_def mkTest_def)
  have h3: "exApp (tearDown ?s) (scope ?t) 1 = (Err ''bad'', 2, 7)"
    by (simp add: mkCase_def mkTest_def)
  show ?thesis
    using h2 by (simp add: cycle_events_setUp_failed [where app = exApp, OF h1 h2 h3])
qed

text \<open>
  C2 (amended). When setUp fails with \<open>E\<close>, the events of the cycle are exactly these, in
  this order: the announcement of the test, the submission of setUp and its rejection with
  \<open>E\<close>, the call of \<^verbatim>\<open>doError\<close> with the test and \<open>E\<close>, the submission of tearDown and its
  settlement, a call of \<^verbatim>\<open>doError\<close> with the test and the error of tearDown when tearDown
  failed too, and the timeout for the next cycle. So the cycle submits setUp and tearDown
  and nothing else: the body is never invoked and tearDown is invoked exactly once.
  \<^verbatim>\<open>doError\<close> is called with the test and \<open>E\<close> once for the failure of setUp, before
  tearDown is submitted, and once more with the error of tearDown when tearDown fails too.
  The calls with the test and \<open>E\<close> are therefore exactly one, unless tearDown fails with
  the same value \<open>E\<close>, and then they are two
\<close>

theorem setUp_failure_reported:
  assumes "tests s = t # ts"
    and "app (setUp s) (scope t) (world s) = (Err E, w1, d1)"
    and "app (tearDown s) (scope t) w1 = (r3, w3, d3)"
  shows "cycle_events app s =
           [Next, SetCurrentTestName (name t), IncRunCount, Log (''Running test: '' @ name t),
            Schedule ''setUp()'' (setUp s) (scope t), Settle ''setUp()'' (Err E), DoError t E,
            Schedule ''tearDown()'' (tearDown s) (scope t), Settle ''tearDown()'' r3] @
           (case r3 of Ok \<Rightarrow> [] | Err E2 \<Rightarrow> [DoError t E2]) @
           [Timeout CallCycleTests 100] \<and>
         submissions (cycle_events app s) =
           [(''setUp()'', setUp s, scope t), (''tearDown()'', tearDown s, scope t)] \<and>
         errorReports (cycle_events app s) =
           (t, E) # (case r3 of Ok \<Rightarrow> [] | Err E2 \<Rightarrow> [(t, E2)]) \<and>
         count_list (errorReports (cycle_events app s)) (t, E) = (if r3 = Err E then 2 else 1)"
  by (simp add: cycle_events_setUp_failed [where app = app, OF assms] split: settlement.splits)

theorem setUp_failure_reported_witness:
  "tests (mkCase (Throws ''bad'') Noop [mkTest ''t2'' Noop]) = [mkTest ''t2'' Noop] \<and>
   exApp (Throws ''bad'') 1 0 = (Err ''bad'', 1, 7) \<and> exApp Noop 1 1 = (Ok, 2, 3) \<and>
   cycle_events exApp (mkCase (Throws ''bad'') Noop [mkTest ''t2'' Noop]) =
     [Next, SetCurrentTestName ''t2'', IncRunCount, Log ''Running test: t2'',
      Schedule ''setUp()'' (Throws ''bad'') 1, Settle ''setUp()'' (Err ''bad''),
      DoError (mkTest ''t2'' Noop) ''bad'',
      Schedule ''tearDown()'' Noop 1, Settle ''tearDown()'' Ok, Timeout CallCycleTests 100] \<and>
   submissions (cycle_events exApp (mkCase (Throws ''bad'') Noop [mkTest ''t2'' Noop])) =
     [(''setUp()'', Throws ''bad'', 1), (''tearDown()'', Noop, 1)] \<and>
   errorReports (cycle_events exApp (mkCase (Throws ''bad'') Noop [mkTest ''t2'' Noop])) =
     [(mkTest ''t2'' Noop, ''bad'')] \<and>
   count_list (errorReports (cycle_events exApp (mkCase (Throws ''bad'') Noop [mkTest ''t2'' Noop])))
     (mkTest ''t2'' Noop, ''bad'') = 1"
proof -
  let ?s = "mkCase (Throws ''bad'') Noop [mkTest ''t2'' Noop]"
  let ?t = "mkTest ''t2'' Noop"
  have h1: "tests ?s = ?t # []"
    by (simp add: mkCase_def)
  have h2: "exApp (setUp ?s) (scope ?t) (world ?s) = (Err ''bad'', 1, 7)"
    by (simp add: mkCase_def mkTest_def)
  have h3: "exApp (tearDown ?s) (scope ?t) 1 = (Ok, 2, 3)"
    by (simp add: mkCase_def mkTest_def)
  show ?thesis
    using h1 setUp_failure_reported [where app = exApp, OF h1 h2 h3]
    by (simp add: mkCase_def mkTest_def)
qed

subsection \<open>Failures of the body and of tearDown\<close>

text \<open>
  C3. When the body fails with \<open>E1\<close> and tearDown fails with \<open>E2\<close>, the calls of
  \<^verbatim>\<open>doError\<close> in the cycle are exactly two, the first with \<open>E1\<close> and the second with
  \<open>E2\<close>, both for the test of the cycle, and \<^verbatim>\<open>doSuccess\<close> is not called
\<close>

theorem body_and_tearDown_failures_reported:
  assumes "tests s = t # ts"
    and "app (setUp s) (scope t) (world s) = (Ok, w1, d1)"
    and "app (ref t) (scope t) w1 = (Err E1, w2, d2)"
    and "app (tearDown s) (scope t) w2 = (Err E2, w3, d3)"
  shows "errorReports (cycle_events app s) = [(t, E1), (t, E2)] \<and>
         successReports (cycle_events app s) = []"
  by (simp add: cycle_events_body_failed [where app = app, OF assms])

theorem body_and_tearDown_failures_reported_witness:
  "tests (mkCase Noop (Throws ''td'') [mkTest ''t1'' (Throws ''boom'')]) =
     [mkTest ''t1'' (Throws ''boom'')] \<and>
   exApp Noop 1 0 = (Ok, 1, 3) \<and> exApp (Throws ''boom'') 1 1 = (Err ''boom'', 2, 7) \<and>
   exApp (Throws ''td'') 1 2 = (Err ''td'', 3, 7) \<and>
   errorReports (cycle_events exApp (mkCase Noop (Throws ''td'') [mkTest ''t1'' (Throws ''boom'')])) =
     [(mkTest ''t1'' (Throws ''boom''), ''boom''), (mkTest ''t1'' (Throws ''boom''), ''td'')] \<and>
   successReports (cycle_events exApp (mkCase Noop (Throws ''td'') [mkTest ''t1'' (Throws ''boom'')])) = []"
proof -
  let ?s = "mkCase Noop (Throws ''td'') [mkTest ''t1'' (Throws ''boom'')]"
  let ?t = "mkTest ''t1'' (Throws ''boom'')"
  have h1: "tests ?s = ?t # []"
    by (simp add: mkCase_def)
  have h2: "exApp (setUp ?s) (scope ?t) (world ?s) = (Ok, 1, 3)"
    by (simp add: mkCase_def mkTest_def)
  have h3: "exApp (ref ?t) (scope ?t) 1 = (Err ''boom'', 2, 7)"
    by (simp add: mkCase_def mkTest_def)
  have h4: "exApp (tearDown ?s) (scope ?t) 2 = (Err ''td'', 3, 7)"
    by (simp add: mkCase_def mkTest_def)
  show ?thesis
    using h1 body_and_tearDown_failures_reported [where app = exApp, OF h1 h2 h3 h4]
    by (simp add: mkCase_def mkTest_def)
qed

subsection \<open>Success is reported exactly when no phase failed\<close>

text \<open>
  C4. In a cycle that has a test to run, \<^verbatim>\<open>doSuccess\<close> is called exactly once, for the test
  of the cycle, when no phase was rejected, and is not called at all otherwise. No phase is
  rejected exactly when setUp, the body and tearDown all succeed, and then \<^verbatim>\<open>doError\<close> is
  never called
\<close>

theorem doSuccess_iff_no_failure:
  assumes "tests s = t # ts"
  shows "successReports (cycle_events app s) =
           (if failures (cycle_events app s) = [] then [t] else []) \<and>
         (failures (cycle_events app s) = [] \<longleftrightarrow> allPhasesSucceed app s t) \<and>
         (allPhasesSucceed app s t \<longrightarrow> errorReports (cycle_events app s) = [])"
proof (cases rule: cycle_paths [of app s t])
  case setUp_failed
  then show ?thesis
    by (simp add: cycle_events_setUp_failed [where app = app, OF assms setUp_failed]
        allPhasesSucceed_def split: settlement.splits prod.splits)
next
  case body_failed
  then show ?thesis
    by (simp add: cycle_events_body_failed [where app = app, OF assms body_failed]
        allPhasesSucceed_def split: settlement.splits)
next
  case body_passed
  then show ?thesis
    by (simp add: cycle_events_body_passed [where app = app, OF assms body_passed]
        allPhasesSucceed_def split: settlement.splits)
qed

theorem doSuccess_iff_no_failure_witness:
  "tests (mkCase Noop Noop [mkTest ''t3'' Noop]) = [mkTest ''t3'' Noop] \<and>
   allPhasesSucceed exApp (mkCase Noop Noop [mkTest ''t3'' Noop]) (mkTest ''t3'' Noop) \<and>
   successReports (cycle_events exApp (mkCase Noop Noop [mkTest ''t3'' Noop])) = [mkTest ''t3'' Noop] \<and>
   failures (cycle_events exApp (mkCase Noop Noop [mkTest ''t3'' Noop])) = [] \<and>
   errorReports (cycle_events exApp (mkCase Noop Noop [mkTest ''t3'' Noop])) = []"
proof -
  let ?s = "mkCase Noop Noop [mkTest ''t3'' Noop]"
  let ?t = "mkTest ''t3'' Noop"
  have h1: "tests ?s = ?t # []"
    by (simp add: mkCase_def)
  have h2: "allPhasesSucceed exApp ?s ?t"
    by (simp add: allPhasesSucceed_def mkCase_def mkTest_def)
  show ?thesis
    using h1 h2 doSuccess_iff_no_failure [where app = exApp, OF h1]
    by (simp add: mkCase_def)
qed

subsection \<open>The end of the run\<close>

text \<open>
  C5. When the iterator is exhausted, \<^verbatim>\<open>cycleTests\<close> asks for the next test, calls
  \<^verbatim>\<open>finalize\<close> exactly once and changes nothing else: no phase is submitted, no timer is
  set, and with no timer pending the run stops there
\<close>

theorem exhausted_iterator_finalizes:
  assumes "tests s = []"
  shows "cycleTests app s = s\<lparr>trace := trace s @ [(clock s, Next), (clock s, Finalize)]\<rparr> \<and>
         cycle_events app s = [Next, Finalize] \<and>
         count_list (cycle_events app s) Finalize = 1 \<and>
         submissions (cycle_events app s) = [] \<and>
         timers (cycleTests app s) = timers s \<and>
         (timers s = [] \<longrightarrow> run app (cycleTests app s) = cycleTests app s)"
  by (simp add: cycleTests_exhausted [where app = app, OF assms]
      cycle_events_exhausted [where app = app, OF assms] run_idle)

theorem exhausted_iterator_finalizes_witness:
  "tests (mkCase Noop Noop []) = [] \<and> timers (mkCase Noop Noop []) = [] \<and>
   cycle_events exApp (mkCase Noop Noop []) = [Next, Finalize] \<and>
   timers (cycleTests exApp (mkCase Noop Noop [])) = [] \<and>
   run exApp (cycleTests exApp (mkCase Noop Noop [])) = cycleTests exApp (mkCase Noop Noop [])"
proof -
  let ?s = "mkCase Noop Noop [] :: (fn, nat, string, nat) testcase"
  have h: "tests ?s = []"
    by (simp add: mkCase_def)
  have h': "timers ?s = []"
    by (simp add: mkCase_def)
  note fin = exhausted_iterator_finalizes [where app = exApp, OF h]
  have a: "cycle_events exApp ?s = [Next, Finalize]"
    using fin by (elim conjE)
  have b: "timers (cycleTests exApp ?s) = timers ?s"
    using fin by (elim conjE)
  have c: "timers ?s = [] \<longrightarrow> run exApp (cycleTests exApp ?s) = cycleTests exApp ?s"
    using fin by (elim conjE)
  from h h' a b c show ?thesis
    by (intro conjI) (simp_all only:)
qed

subsection \<open>Which functions the phases run\<close>

text \<open>
  C6, as stated, at a descriptor whose own setUp and tearDown differ from those of the test
  case: the functions run are \<^verbatim>\<open>this.setUp\<close>, \<^verbatim>\<open>test.ref\<close> and \<^verbatim>\<open>this.tearDown\<close>, and the
  descriptor's setUp and tearDown are not among them.
\<close>

theorem descriptor_setUp_not_run:
  "descSetUp (mkTest ''t1'' (Throws ''boom'')) = Throws ''unused'' \<and>
   descTearDown (mkTest ''t1'' (Throws ''boom'')) = Throws ''unused'' \<and>
   map (\<lambda>(d, f, sc). f)
     (submissions (cycle_events exApp (mkCase Noop Noop [mkTest ''t1'' (Throws ''boom'')]))) =
     [Noop, Throws ''boom'', Noop] \<and>
   map (\<lambda>(d, f, sc). f)
     (submissions (cycle_events exApp (mkCase Noop Noop [mkTest ''t1'' (Throws ''boom'')]))) \<noteq>
     [descSetUp (mkTest ''t1'' (Throws ''boom'')), ref (mkTest ''t1'' (Throws ''boom'')),
      descTearDown (mkTest ''t1'' (Throws ''boom''))]"
proof -
  let ?s = "mkCase Noop Noop [mkTest ''t1'' (Throws ''boom'')]"
  let ?t = "mkTest ''t1'' (Throws ''boom'')"
  have h1: "tests ?s = ?t # []"
    by (simp add: mkCase_def)
  have h2: "exApp (setUp ?s) (scope ?t) (world ?s) = (Ok, 1, 3)"
    by (simp add: mkCase_def mkTest_def)
  have h3: "exApp (ref ?t) (scope ?t) 1 = (Err ''boom'', 2, 7)"
    by (simp add: mkCase_def mkTest_def)
  have h4: "exApp (tearDown ?s) (scope ?t) 2 = (Ok, 3, 3)"
    by (simp add: mkCase_def mkTest_def)
  show ?thesis
    by (simp add: cycle_events_body_failed [where app = exApp, OF h1 h2 h3 h4])
      (simp add: mkCase_def mkTest_def)
qed

text \<open>
  C6 (amended). The functions run in a cycle are the setUp of the test case, the \<^verbatim>\<open>ref\<close> of the
  descriptor fetched for the cycle (only when setUp succeeded) and the tearDown of the test
  case, in this order, each with the scope of the descriptor as receiver
\<close>

theorem phases_are_test_case_functions:
  assumes "tests s = t # ts"
  shows "map (\<lambda>(d, f, sc). f) (submissions (cycle_events app s)) =
           setUp s #
           (case fst (app (setUp s) (scope t) (world s)) of Ok \<Rightarrow> [ref t] | Err e \<Rightarrow> []) @
           [tearDown s] \<and>
         list_all (\<lambda>(d, f, sc). sc = scope t) (submissions (cycle_events app s))"
proof (cases rule: cycle_paths [of app s t])
  case setUp_failed
  then show ?thesis
    by (simp add: cycle_events_setUp_failed [where app = app, OF assms setUp_failed]
        split: settlement.splits)
next
  case body_failed
  then show ?thesis
    by (simp add: cycle_events_body_failed [where app = app, OF assms body_failed]
        split: settlement.splits)
next
  case body_passed
  then show ?thesis
    by (simp add: cycle_events_body_passed [where app = app, OF assms body_passed]
        split: settlement.splits)
qed

theorem phases_are_test_case_functions_witness:
  "tests (mkCase Noop Noop [mkTest ''t1'' (Throws ''boom'')]) = [mkTest ''t1'' (Throws ''boom'')] \<and>
   map (\<lambda>(d, f, sc). f)
     (submissions (cycle_events exApp (mkCase Noop Noop [mkTest ''t1'' (Throws ''boom'')]))) =
     [Noop, Throws ''boom'', Noop] \<and>
   list_all (\<lambda>(d, f, sc). sc = 1)
     (submissions (cycle_events exApp (mkCase Noop Noop [mkTest ''t1'' (Throws ''boom'')])))"
proof -
  have h: "tests (mkCase Noop Noop [mkTest ''t1'' (Throws ''boom'')]) =
      mkTest ''t1'' (Throws ''boom'') # []"
    by (simp add: mkCase_def)
  show ?thesis
    using h phases_are_test_case_functions [where app = exApp, OF h]
    by (simp add: mkCase_def mkTest_def)
qed

subsection \<open>Errors reach the sink unchanged and stay inside the cycle\<close>

text \<open>
  C8. The calls of \<^verbatim>\<open>doError\<close> in a cycle carry, in the same order, exactly the values the
  phases of the cycle were rejected with, each with the test of the cycle. The promise that
  \<^verbatim>\<open>runSingleTest_\<close> returns is always resolved, never rejected, and the cycle always ends
  by scheduling the next call of \<^verbatim>\<open>cycleTests\<close>
\<close>

theorem phase_errors_reported_unchanged:
  assumes "tests s = t # ts"
  shows "errorReports (cycle_events app s) = map (Pair t) (failures (cycle_events app s)) \<and>
         fst (runSingleTest app t (onError t) st) = Ok \<and>
         last (cycle_events app s) = Timeout CallCycleTests 100"
proof (cases rule: cycle_paths [of app s t])
  case setUp_failed
  then show ?thesis
    by (simp add: cycle_events_setUp_failed [where app = app, OF assms setUp_failed]
        runSingleTest_recovers split: settlement.splits)
next
  case body_failed
  then show ?thesis
    by (simp add: cycle_events_body_failed [where app = app, OF assms body_failed]
        runSingleTest_recovers split: settlement.splits)
next
  case body_passed
  then show ?thesis
    by (simp add: cycle_events_body_passed [where app = app, OF assms body_passed]
        runSingleTest_recovers split: settlement.splits)
qed

theorem phase_errors_reported_unchanged_witness:
  "tests (mkCase Noop (Throws ''td'') [mkTest ''t1'' (Throws ''boom'')]) =
     [mkTest ''t1'' (Throws ''boom'')] \<and>
   failures (cycle_events exApp (mkCase Noop (Throws ''td'') [mkTest ''t1'' (Throws ''boom'')])) =
     [''boom'', ''td''] \<and>
   errorReports (cycle_events exApp (mkCase Noop (Throws ''td'') [mkTest ''t1'' (Throws ''boom'')])) =
     [(mkTest ''t1'' (Throws ''boom''), ''boom''), (mkTest ''t1'' (Throws ''boom''), ''td'')] \<and>
   fst (runSingleTest exApp (mkTest ''t1'' (Throws ''boom'')) (onError (mkTest ''t1'' (Throws ''boom'')))
          (False, mkCase Noop (Throws ''td'') [])) = Ok \<and>
   last (cycle_events exApp (mkCase Noop (Throws ''td'') [mkTest ''t1'' (Throws ''boom'')])) =
     Timeout CallCycleTests 100"
proof -
  let ?s = "mkCase Noop (Throws ''td'') [mkTest ''t1'' (Throws ''boom'')]"
  let ?t = "mkTest ''t1'' (Throws ''boom'')"
  have h1: "tests ?s = ?t # []"
    by (simp add: mkCase_def)
  have h2: "exApp (setUp ?s) (scope ?t) (world ?s) = (Ok, 1, 3)"
    by (simp add: mkCase_def mkTest_def)
  have h3: "exApp (ref ?t) (scope ?t) 1 = (Err ''boom'', 2, 7)"
    by (simp add: mkCase_def mkTest_def)
  have h4: "exApp (tearDown ?s) (scope ?t) 2 = (Err ''td'', 3, 7)"
    by (simp add: mkCase_def mkTest_def)
  have f: "failures (cycle_events exApp ?s) = [''boom'', ''td'']"
    by (simp add: cycle_events_body_failed [where app = exApp, OF h1 h2 h3 h4])
  show ?thesis
    using h1 f phase_errors_reported_unchanged [where app = exApp
        and st = "(False, mkCase Noop (Throws ''td'') [])", OF h1]
    by simp
qed

subsection \<open>The test is announced before setUp\<close>

text \<open>
  C9. A cycle that fetches a test begins with: the fetch, the write of the current test
  name, the increment of the run counter, the log of \<^verbatim>\<open>Running test: \<close> followed by the name,
  and only then the submission of setUp. The counter is incremented exactly once in the
  cycle and that message is logged exactly once. The counter after the cycle is the counter
  before it after one \<^verbatim>\<open>++\<close>: one more, as long as the counter is below \<open>2 ^ 53\<close>, where a
  JavaScript number stops counting by ones
\<close>

theorem test_announced_before_setUp:
  assumes "tests s = t # ts"
  shows "take 5 (cycle_events app s) =
           [Next, SetCurrentTestName (name t), IncRunCount, Log (''Running test: '' @ name t),
            Schedule ''setUp()'' (setUp s) (scope t)] \<and>
         count_list (cycle_events app s) IncRunCount = 1 \<and>
         count_list (cycle_events app s) (Log (''Running test: '' @ name t)) = 1 \<and>
         runCount (cycleTests app s) = increment (runCount s) \<and>
         (runCount s < 2 ^ 53 \<longrightarrow> runCount (cycleTests app s) = runCount s + 1)"
proof (cases rule: cycle_paths [of app s t])
  case setUp_failed
  then show ?thesis
    by (simp add: cycle_events_setUp_failed [where app = app, OF assms setUp_failed]
        cycleTests_setUp_failed [where app = app, OF assms setUp_failed]
        increment_def split: settlement.splits)
next
  case body_failed
  then show ?thesis
    by (simp add: cycle_events_body_failed [where app = app, OF assms body_failed]
        cycleTests_body_failed [where app = app, OF assms body_failed]
        increment_def split: settlement.splits)
next
  case body_passed
  then show ?thesis
    by (simp add: cycle_events_body_passed [where app = app, OF assms body_passed]
        cycleTests_body_passed [where app = app, OF assms body_passed]
        increment_def split: settlement.splits)
qed

theorem test_announced_before_setUp_witness:
  "tests (mkCase Noop Noop [mkTest ''t3'' Noop]) = [mkTest ''t3'' Noop] \<and>
   take 5 (cycle_events exApp (mkCase Noop Noop [mkTest ''t3'' Noop])) =
     [Next, SetCurrentTestName ''t3'', IncRunCount, Log ''Running test: t3'',
      Schedule ''setUp()'' Noop 1] \<and>
   count_list (cycle_events exApp (mkCase Noop Noop [mkTest ''t3'' Noop])) IncRunCount = 1 \<and>
   count_list (cycle_events exApp (mkCase Noop Noop [mkTest ''t3'' Noop])) (Log ''Running test: t3'') = 1 \<and>
   runCount (cycleTests exApp (mkCase Noop Noop [mkTest ''t3'' Noop])) = 1"
proof -
  have h: "tests (mkCase Noop Noop [mkTest ''t3'' Noop]) = mkTest ''t3'' Noop # []"
    by (simp add: mkCase_def)
  show ?thesis
    using h test_announced_before_setUp [where app = exApp, OF h]
    by (simp add: mkCase_def mkTest_def increment_def)
qed

subsection \<open>From one cycle to the next\<close>

lemma cycleTests_frame:
  assumes "tests s = t # ts"
  shows "tests (cycleTests app s) = ts \<and> setUp (cycleTests app s) = setUp s \<and>
         tearDown (cycleTests app s) = tearDown s \<and> clock s \<le> clock (cycleTests app s) \<and>
         timers (cycleTests app s) = timers s @ [(clock (cycleTests app s) + 100, CallCycleTests)]"
proof (cases rule: cycle_paths [of app s t])
  case setUp_failed
  then show ?thesis
    by (simp add: cycleTests_setUp_failed [where app = app, OF assms setUp_failed])
next
  case body_failed
  then show ?thesis
    by (simp add: cycleTests_body_failed [where app = app, OF assms body_failed])
next
  case body_passed
  then show ?thesis
    by (simp add: cycleTests_body_passed [where app = app, OF assms body_passed])
qed

lemma fire_after_cycle:
  assumes "tests s = t # ts" and "timers s = []"
  shows "fire app (cycleTests app s) =
     cycleTests app ((cycleTests app s)\<lparr>timers := [], clock := clock (cycleTests app s) + 100\<rparr>)"
  using cycleTests_frame [where app = app, OF assms(1)] assms(2)
  by (simp add: fire_def)

lemma events_since_same_trace:
  "trace p = trace s \<Longrightarrow> events_since s (cycleTests app p) = cycle_events app p"
  by (simp add: events_since_def cycle_events_def)

text \<open>
  C10. The error flag starts afresh in every call of \<^verbatim>\<open>cycleTests\<close>: whatever was reported
  in the cycle of test N, when the timer fires and all phases of test N+1 succeed,
  \<^verbatim>\<open>doSuccess\<close> is called exactly once, for test N+1, and \<^verbatim>\<open>doError\<close> is not called
\<close>

theorem error_flag_fresh_each_cycle:
  assumes "tests s = tN # tN1 # ts" and "timers s = []"
    and "allPhasesSucceed app (cycleTests app s) tN1"
  shows "successReports (events_since (cycleTests app s) (fire app (cycleTests app s))) = [tN1] \<and>
         errorReports (events_since (cycleTests app s) (fire app (cycleTests app s))) = []"
proof -
  let ?s1 = "cycleTests app s"
  let ?p = "?s1\<lparr>timers := [], clock := clock ?s1 + 100\<rparr>"
  have fr: "tests ?s1 = tN1 # ts \<and> setUp ?s1 = setUp s \<and> tearDown ?s1 = tearDown s"
    using cycleTests_frame [where app = app, OF assms(1)] by simp
  have f: "fire app ?s1 = cycleTests app ?p"
    by (rule fire_after_cycle [OF assms(1,2)])
  have t: "tests ?p = tN1 # ts"
    using fr by simp
  have a: "allPhasesSucceed app ?p tN1"
    using assms(3) by (simp add: allPhasesSucceed_def)
  have "events_since ?s1 (cycleTests app ?p) = cycle_events app ?p"
    by (rule events_since_same_trace) simp
  then show ?thesis
    by (simp add: f cycle_events_all_passed [where app = app, OF t a])
qed

theorem error_flag_fresh_each_cycle_witness:
  "tests (mkCase Noop Noop [mkTest ''t1'' (Throws ''boom''), mkTest ''t3'' Noop]) =
     [mkTest ''t1'' (Throws ''boom''), mkTest ''t3'' Noop] \<and>
   timers (mkCase Noop Noop [mkTest ''t1'' (Throws ''boom''), mkTest ''t3'' Noop]) = [] \<and>
   errorReports (cycle_events exApp (mkCase Noop Noop [mkTest ''t1'' (Throws ''boom''), mkTest ''t3'' Noop])) =
     [(mkTest ''t1'' (Throws ''boom''), ''boom'')] \<and>
   successReports
     (events_since (cycleTests exApp (mkCase Noop Noop [mkTest ''t1'' (Throws ''boom''), mkTest ''t3'' Noop]))
        (fire exApp (cycleTests exApp (mkCase Noop Noop [mkTest ''t1'' (Throws ''boom''), mkTest ''t3'' Noop])))) =
     [mkTest ''t3'' Noop] \<and>
   errorReports
     (events_since (cycleTests exApp (mkCase Noop Noop [mkTest ''t1'' (Throws ''boom''), mkTest ''t3'' Noop]))
        (fire exApp (cycleTests exApp (mkCase Noop Noop [mkTest ''t1'' (Throws ''boom''), mkTest ''t3'' Noop])))) =
     []"
proof -
  let ?s = "mkCase Noop Noop [mkTest ''t1'' (Throws ''boom''), mkTest ''t3'' Noop]"
  let ?t = "mkTest ''t1'' (Throws ''boom'')"
  have h1: "tests ?s = ?t # mkTest ''t3'' Noop # []"
    by (simp add: mkCase_def)
  have h2: "timers ?s = []"
    by (simp add: mkCase_def)
  have p1: "exApp (setUp ?s) (scope ?t) (world ?s) = (Ok, 1, 3)"
    by (simp add: mkCase_def mkTest_def)
  have p2: "exApp (ref ?t) (scope ?t) 1 = (Err ''boom'', 2, 7)"
    by (simp add: mkCase_def mkTest_def)
  have p3: "exApp (tearDown ?s) (scope ?t) 2 = (Ok, 3, 3)"
    by (simp add: mkCase_def mkTest_def)
  have e: "errorReports (cycle_events exApp ?s) = [(?t, ''boom'')]"
    by (simp add: cycle_events_body_failed [where app = exApp, OF h1 p1 p2 p3])
  have h3: "allPhasesSucceed exApp (cycleTests exApp ?s) (mkTest ''t3'' Noop)"
    by (simp add: cycleTests_body_failed [where app = exApp, OF h1 p1 p2 p3] allPhasesSucceed_def)
      (simp add: mkCase_def mkTest_def)
  show ?thesis
    using h1 h2 e error_flag_fresh_each_cycle [where app = exApp, OF h1 h2 h3]
    by simp
qed

subsection \<open>The delay between two tests\<close>

lemma noSetUpAfterTearDown_split:
  assumes "noSetUpAfterTearDown (l @ r)" and "x \<in> set l" and "isTearDownSettled x"
    and "y \<in> set r"
  shows "\<not> isSetUpSubmitted y"
  using assms
proof (induction l)
  case Nil
  then show ?case by simp
next
  case (Cons a l)
  show ?case
  proof (cases "x = a")
    case True
    with Cons.prems have "list_all (\<lambda>y. \<not> isSetUpSubmitted y) (l @ r)"
      by simp
    with Cons.prems(4) show ?thesis
      by (simp add: list_all_iff)
  next
    case False
    with Cons.prems have "x \<in> set l" and "noSetUpAfterTearDown (l @ r)"
      by simp_all
    then show ?thesis
      using Cons.IH Cons.prems(3,4) by blast
  qed
qed

lemma spaced_if_noSetUpAfterTearDown:
  assumes "noSetUpAfterTearDown tr"
  shows "spaced tr"
  unfolding spaced_def
proof (intro allI impI, elim conjE)
  fix l r c1 c2 x f sc
  assume "tr = l @ r" and td: "(c1, Settle ''tearDown()'' x) \<in> set l"
    and su: "(c2, Schedule ''setUp()'' f sc) \<in> set r"
  with assms have "\<not> isSetUpSubmitted (c2, Schedule ''setUp()'' f sc)"
    using noSetUpAfterTearDown_split [of l r "(c1, Settle ''tearDown()'' x)"
        "(c2, Schedule ''setUp()'' f sc)"]
    by simp
  then show "c1 + 100 \<le> c2"
    by simp
qed

lemma list_all_fst:
  assumes "list_all P xs" and "(c, e) \<in> set xs"
  shows "P (c, e)"
  using assms by (simp add: list_all_iff)

lemma spaced_append:
  assumes old: "spaced old" and new: "noSetUpAfterTearDown new"
    and before: "list_all (\<lambda>x. fst x \<le> c) old"
    and after: "list_all (\<lambda>x. c + 100 \<le> fst x) new"
  shows "spaced (old @ new)"
  unfolding spaced_def
proof (intro allI impI, elim conjE)
  fix l r c1 c2 x f sc
  assume split: "old @ new = l @ r" and td: "(c1, Settle ''tearDown()'' x) \<in> set l"
    and su: "(c2, Schedule ''setUp()'' f sc) \<in> set r"
  from split obtain us where
    "(old = l @ us \<and> us @ new = r) \<or> (old @ us = l \<and> new = us @ r)"
    by (auto simp: append_eq_append_conv2)
  then show "c1 + 100 \<le> c2"
  proof
    assume a: "old = l @ us \<and> us @ new = r"
    with td have "(c1, Settle ''tearDown()'' x) \<in> set old"
      by simp
    with before have c1: "c1 \<le> c"
      by (auto dest: list_all_fst)
    from a su have "(c2, Schedule ''setUp()'' f sc) \<in> set us \<or>
        (c2, Schedule ''setUp()'' f sc) \<in> set new"
      by auto
    then show ?thesis
    proof
      assume "(c2, Schedule ''setUp()'' f sc) \<in> set us"
      with old a td show ?thesis
        unfolding spaced_def by blast
    next
      assume "(c2, Schedule ''setUp()'' f sc) \<in> set new"
      with after have "c + 100 \<le> c2"
        by (auto dest: list_all_fst)
      with c1 show ?thesis by simp
    qed
  next
    assume b: "old @ us = l \<and> new = us @ r"
    with su have "(c2, Schedule ''setUp()'' f sc) \<in> set new"
      by simp
    with after have c2: "c + 100 \<le> c2"
      by (auto dest: list_all_fst)
    from b td have "(c1, Settle ''tearDown()'' x) \<in> set old \<or>
        (c1, Settle ''tearDown()'' x) \<in> set us"
      by auto
    then show ?thesis
    proof
      assume "(c1, Settle ''tearDown()'' x) \<in> set old"
      with before have "c1 \<le> c"
        by (auto dest: list_all_fst)
      with c2 show ?thesis by simp
    next
      assume "(c1, Settle ''tearDown()'' x) \<in> set us"
      with new b su have "\<not> isSetUpSubmitted (c2, Schedule ''setUp()'' f sc)"
        using noSetUpAfterTearDown_split [of us r "(c1, Settle ''tearDown()'' x)"
            "(c2, Schedule ''setUp()'' f sc)"]
        by simp
      then show ?thesis by simp
    qed
  qed
qed

text \<open>What one cycle appends to the trace: stamped between the clock before and the clock
  after, with no \<^verbatim>\<open>setUp()\<close> submitted after a \<^verbatim>\<open>tearDown()\<close> has settled.\<close>

lemma cycleTests_appends:
  "\<exists>new. trace (cycleTests app s) = trace s @ new \<and> noSetUpAfterTearDown new \<and>
     list_all (\<lambda>x. clock s \<le> fst x \<and> fst x \<le> clock (cycleTests app s)) new \<and>
     timers (cycleTests app s) =
       timers s @ (if tests s = [] then [] else [(clock (cycleTests app s) + 100, CallCycleTests)])"
proof (cases "tests s")
  case Nil
  then show ?thesis
    by (simp add: cycleTests_exhausted [where app = app, OF Nil])
next
  case (Cons t ts)
  show ?thesis
  proof (cases rule: cycle_paths [of app s t])
    case setUp_failed
    then show ?thesis
      by (simp add: cycleTests_setUp_failed [where app = app, OF Cons setUp_failed] Cons
          reported_def split: settlement.splits)
  next
    case body_failed
    then show ?thesis
      by (simp add: cycleTests_body_failed [where app = app, OF Cons body_failed] Cons
          reported_def split: settlement.splits)
  next
    case body_passed
    then show ?thesis
      by (simp add: cycleTests_body_passed [where app = app, OF Cons body_passed] Cons
          split: settlement.splits)
  qed
qed

lemma run_inv_first_cycle:
  assumes "timers s = []"
  shows "run_inv (length (trace s)) (cycleTests app s)"
proof -
  obtain new where new: "trace (cycleTests app s) = trace s @ new" "noSetUpAfterTearDown new"
    "list_all (\<lambda>x. clock s \<le> fst x \<and> fst x \<le> clock (cycleTests app s)) new"
    "timers (cycleTests app s) =
       timers s @ (if tests s = [] then [] else [(clock (cycleTests app s) + 100, CallCycleTests)])"
    using cycleTests_appends [of app s] by blast
  from new(3) have "list_all (\<lambda>x. fst x \<le> clock (cycleTests app s)) new"
    by (simp add: list_all_iff)
  with new(1,2,4) assms show ?thesis
    by (simp add: run_inv_def spaced_if_noSetUpAfterTearDown)
qed

lemma run_inv_fire:
  assumes inv: "run_inv n s" and pending: "timers s \<noteq> []"
  shows "run_inv n (fire app s)"
proof -
  let ?p = "s\<lparr>timers := [], clock := clock s + 100\<rparr>"
  from inv pending have t: "timers s = [(clock s + 100, CallCycleTests)]"
    by (simp add: run_inv_def)
  then have f: "fire app s = cycleTests app ?p"
    by (simp add: fire_def)
  obtain new where new: "trace (cycleTests app ?p) = trace ?p @ new" "noSetUpAfterTearDown new"
    "list_all (\<lambda>x. clock ?p \<le> fst x \<and> fst x \<le> clock (cycleTests app ?p)) new"
    "timers (cycleTests app ?p) =
       timers ?p @ (if tests ?p = [] then [] else [(clock (cycleTests app ?p) + 100, CallCycleTests)])"
    using cycleTests_appends [of app ?p] by blast
  from inv have n: "n \<le> length (trace s)" and sp: "spaced (drop n (trace s))"
    and le: "list_all (\<lambda>x. fst x \<le> clock s) (drop n (trace s))"
    by (simp_all add: run_inv_def)
  from new(3) have after: "list_all (\<lambda>x. clock s + 100 \<le> fst x) new"
    and upto: "list_all (\<lambda>x. fst x \<le> clock (cycleTests app ?p)) new"
    by (simp_all add: list_all_iff)
  have mono: "clock s \<le> clock (cycleTests app ?p)"
  proof (cases "tests ?p")
    case Nil
    then show ?thesis
      by (simp add: cycleTests_exhausted [where app = app, OF Nil])
  next
    case (Cons t ts)
    then show ?thesis
      using cycleTests_frame [where app = app, OF Cons] by simp
  qed
  from le mono have le': "list_all (\<lambda>x. fst x \<le> clock (cycleTests app ?p)) (drop n (trace s))"
    by (auto simp: list_all_iff)
  have "spaced (drop n (trace s) @ new)"
    by (rule spaced_append [OF sp new(2) le after])
  with n new(1,4) le' upto show ?thesis
    by (simp add: f run_inv_def)
qed

lemma run_inv_run: "run_inv n s \<Longrightarrow> run_inv n (run app s)"
proof (induction app s rule: run.induct)
  case (1 app s)
  show ?case
  proof (cases "timers s = []")
    case True
    with "1.prems" show ?thesis
      by (simp add: run_idle)
  next
    case False
    then have "run app s = run app (fire app s)"
      by (subst run.simps) simp
    with False "1.IH" "1.prems" show ?thesis
      by (simp add: run_inv_fire)
  qed
qed

text \<open>How a cycle that has a test to run begins and where its tearDown settles.\<close>

lemma cycle_begins:
  assumes "tests s = t # ts"
  shows "take 5 (drop (length (trace s)) (trace (cycleTests app s))) =
     [(clock s, Next), (clock s, SetCurrentTestName (name t)), (clock s, IncRunCount),
      (clock s, Log (''Running test: '' @ name t)),
      (clock s, Schedule ''setUp()'' (setUp s) (scope t))]"
proof (cases rule: cycle_paths [of app s t])
  case setUp_failed
  then show ?thesis
    by (simp add: cycleTests_setUp_failed [where app = app, OF assms setUp_failed])
next
  case body_failed
  then show ?thesis
    by (simp add: cycleTests_body_failed [where app = app, OF assms body_failed])
next
  case body_passed
  then show ?thesis
    by (simp add: cycleTests_body_passed [where app = app, OF assms body_passed])
qed

lemma cycle_tearDown_settled:
  assumes "tests s = t # ts"
  shows "\<exists>r. (clock (cycleTests app s), Settle ''tearDown()'' r) \<in>
           set (drop (length (trace s)) (trace (cycleTests app s)))"
proof (cases rule: cycle_paths [of app s t])
  case setUp_failed
  then show ?thesis
    by (auto simp add: cycleTests_setUp_failed [where app = app, OF assms setUp_failed])
next
  case body_failed
  then show ?thesis
    by (auto simp add: cycleTests_body_failed [where app = app, OF assms body_failed])
next
  case body_passed
  then show ?thesis
    by (auto simp add: cycleTests_body_passed [where app = app, OF assms body_passed])
qed

lemma cycle_stamps:
  "take (length (trace s)) (trace (cycleTests app s)) = trace s \<and>
   list_all (\<lambda>x. clock s \<le> fst x \<and> fst x \<le> clock (cycleTests app s))
     (drop (length (trace s)) (trace (cycleTests app s)))"
  using cycleTests_appends [of app s] by auto

text \<open>A run of two tests whose setUp throws.\<close>

lemma exRun_trace:
  "trace (run exApp (cycleTests exApp (mkCase (Throws ''bad'') Noop [mkTest ''a'' Noop, mkTest ''b'' Noop]))) =
     [(0, Next), (0, SetCurrentTestName ''a''), (0, IncRunCount), (0, Log ''Running test: a''),
      (0, Schedule ''setUp()'' (Throws ''bad'') 1), (7, Settle ''setUp()'' (Err ''bad'')),
      (7, DoError (mkTest ''a'' Noop) ''bad''), (7, Schedule ''tearDown()'' Noop 1),
      (10, Settle ''tearDown()'' Ok), (10, Timeout CallCycleTests 100)] @
     [(110, Next), (110, SetCurrentTestName ''b''), (110, IncRunCount),
      (110, Log ''Running test: b''), (110, Schedule ''setUp()'' (Throws ''bad'') 1),
      (117, Settle ''setUp()'' (Err ''bad'')), (117, DoError (mkTest ''b'' Noop) ''bad''),
      (117, Schedule ''tearDown()'' Noop 1), (120, Settle ''tearDown()'' Ok),
      (120, Timeout CallCycleTests 100), (220, Next), (220, Finalize)]"
  by (simp add: run.simps fire_def cycleTests_def runSingleTest_def scheduleAndWaitForIdle_def
      sink_defs chain_defs mkCase_def mkTest_def Let_def)

text \<open>
  C7. In a run started by one call of \<^verbatim>\<open>cycleTests\<close> with no timer pending, every
  submission of \<^verbatim>\<open>setUp()\<close> that comes after a settlement of \<^verbatim>\<open>tearDown()\<close> comes at least
  100 time units after it. For the first two tests of the run, N and N+1: the cycle of N
  ends with the call \<^verbatim>\<open>timeout(cycleTests, 100)\<close>, which leaves a single timer, due 100 time
  units after the clock at which tearDown of N settled; nothing in the cycle of N is later
  than that settlement; and when the timer fires, the cycle of N+1 is appended to the trace
  of the cycle of N and submits its setUp exactly 100 time units after that settlement.
\<close>

theorem next_setUp_after_delay:
  assumes "timers s = []" and "tests s = tN # tN1 # ts"
    and "drop (length (trace s)) (trace (run app (cycleTests app s))) = l @ r"
    and "(c1, Settle ''tearDown()'' x) \<in> set l"
    and "(c2, Schedule ''setUp()'' f sc) \<in> set r"
  shows "c1 + 100 \<le> c2 \<and>
         last (cycle_events app s) = Timeout CallCycleTests 100 \<and>
         timers (cycleTests app s) = [(clock (cycleTests app s) + 100, CallCycleTests)] \<and>
         (\<exists>r. (clock (cycleTests app s), Settle ''tearDown()'' r) \<in>
               set (drop (length (trace s)) (trace (cycleTests app s)))) \<and>
         list_all (\<lambda>x. fst x \<le> clock (cycleTests app s))
           (drop (length (trace s)) (trace (cycleTests app s))) \<and>
         take (length (trace (cycleTests app s))) (trace (fire app (cycleTests app s))) =
           trace (cycleTests app s) \<and>
         take 5 (drop (length (trace (cycleTests app s))) (trace (fire app (cycleTests app s)))) =
           [(clock (cycleTests app s) + 100, Next),
            (clock (cycleTests app s) + 100, SetCurrentTestName (name tN1)),
            (clock (cycleTests app s) + 100, IncRunCount),
            (clock (cycleTests app s) + 100, Log (''Running test: '' @ name tN1)),
            (clock (cycleTests app s) + 100, Schedule ''setUp()'' (setUp s) (scope tN1))]"
proof -
  let ?s1 = "cycleTests app s"
  let ?p = "?s1\<lparr>timers := [], clock := clock ?s1 + 100\<rparr>"
  have "run_inv (length (trace s)) (run app ?s1)"
    by (rule run_inv_run [OF run_inv_first_cycle [OF assms(1)]])
  then have "spaced (drop (length (trace s)) (trace (run app ?s1)))"
    by (simp add: run_inv_def)
  with assms(3,4,5) have a: "c1 + 100 \<le> c2"
    unfolding spaced_def by blast
  have b: "last (cycle_events app s) = Timeout CallCycleTests 100"
    by (rule last_cycle_events [OF assms(2)])
  have fr: "tests ?s1 = tN1 # ts \<and> setUp ?s1 = setUp s"
    using cycleTests_frame [where app = app, OF assms(2)] by simp
  have c: "timers ?s1 = [(clock ?s1 + 100, CallCycleTests)]"
    using cycleTests_frame [where app = app, OF assms(2)] assms(1) by simp
  have d: "\<exists>r. (clock ?s1, Settle ''tearDown()'' r) \<in> set (drop (length (trace s)) (trace ?s1))"
    by (rule cycle_tearDown_settled [OF assms(2)])
  have e: "list_all (\<lambda>x. fst x \<le> clock ?s1) (drop (length (trace s)) (trace ?s1))"
    using cycle_stamps [of s app] by (simp add: list_all_iff)
  have f: "fire app ?s1 = cycleTests app ?p"
    by (rule fire_after_cycle [OF assms(2,1)])
  have t: "tests ?p = tN1 # ts"
    using fr by simp
  have g: "take (length (trace ?s1)) (trace (fire app ?s1)) = trace ?s1"
    using cycle_stamps [of ?p app] by (simp add: f)
  have h: "take 5 (drop (length (trace ?s1)) (trace (fire app ?s1))) =
      [(clock ?s1 + 100, Next), (clock ?s1 + 100, SetCurrentTestName (name tN1)),
       (clock ?s1 + 100, IncRunCount), (clock ?s1 + 100, Log (''Running test: '' @ name tN1)),
       (clock ?s1 + 100, Schedule ''setUp()'' (setUp s) (scope tN1))]"
    using cycle_begins [where app = app, OF t] fr by (simp add: f)
  from a b c d e g h show ?thesis
    by (intro conjI)
qed

theorem next_setUp_after_delay_witness:
  "timers (mkCase (Throws ''bad'') Noop [mkTest ''a'' Noop, mkTest ''b'' Noop]) = [] \<and>
   tests (mkCase (Throws ''bad'') Noop [mkTest ''a'' Noop, mkTest ''b'' Noop]) =
     [mkTest ''a'' Noop, mkTest ''b'' Noop] \<and>
   drop (length (trace (mkCase (Throws ''bad'') Noop [mkTest ''a'' Noop, mkTest ''b'' Noop])))
     (trace (run exApp (cycleTests exApp
        (mkCase (Throws ''bad'') Noop [mkTest ''a'' Noop, mkTest ''b'' Noop])))) =
     [(0, Next), (0, SetCurrentTestName ''a''), (0, IncRunCount), (0, Log ''Running test: a''),
      (0, Schedule ''setUp()'' (Throws ''bad'') 1), (7, Settle ''setUp()'' (Err ''bad'')),
      (7, DoError (mkTest ''a'' Noop) ''bad''), (7, Schedule ''tearDown()'' Noop 1),
      (10, Settle ''tearDown()'' Ok), (10, Timeout CallCycleTests 100)] @
     [(110, Next), (110, SetCurrentTestName ''b''), (110, IncRunCount),
      (110, Log ''Running test: b''), (110, Schedule ''setUp()'' (Throws ''bad'') 1),
      (117, Settle ''setUp()'' (Err ''bad'')), (117, DoError (mkTest ''b'' Noop) ''bad''),
      (117, Schedule ''tearDown()'' Noop 1), (120, Settle ''tearDown()'' Ok),
      (120, Timeout CallCycleTests 100), (220, Next), (220, Finalize)] \<and>
   (10 :: nat) + 100 \<le> 110 \<and>
   last (cycle_events exApp (mkCase (Throws ''bad'') Noop [mkTest ''a'' Noop, mkTest ''b'' Noop])) =
     Timeout CallCycleTests 100 \<and>
   timers (cycleTests exApp (mkCase (Throws ''bad'') Noop [mkTest ''a'' Noop, mkTest ''b'' Noop])) =
     [(110, CallCycleTests)]"
proof -
  let ?s = "mkCase (Throws ''bad'') Noop [mkTest ''a'' Noop, mkTest ''b'' Noop]"
  let ?l = "[(0, Next), (0, SetCurrentTestName ''a''), (0, IncRunCount), (0, Log ''Running test: a''),
      (0, Schedule ''setUp()'' (Throws ''bad'') 1), (7, Settle ''setUp()'' (Err ''bad'')),
      (7, DoError (mkTest ''a'' Noop) ''bad''), (7, Schedule ''tearDown()'' Noop 1),
      (10, Settle ''tearDown()'' Ok), (10, Timeout CallCycleTests 100)]
      :: (nat \<times> (fn, nat, string) event) list"
  let ?r = "[(110, Next), (110, SetCurrentTestName ''b''), (110, IncRunCount),
      (110, Log ''Running test: b''), (110, Schedule ''setUp()'' (Throws ''bad'') 1),
      (117, Settle ''setUp()'' (Err ''bad'')), (117, DoError (mkTest ''b'' Noop) ''bad''),
      (117, Schedule ''tearDown()'' Noop 1), (120, Settle ''tearDown()'' Ok),
      (120, Timeout CallCycleTests 100), (220, Next), (220, Finalize)]
      :: (nat \<times> (fn, nat, string) event) list"
  have h1: "timers ?s = []"
    by (simp add: mkCase_def)
  have h2: "tests ?s = mkTest ''a'' Noop # mkTest ''b'' Noop # []"
    by (simp add: mkCase_def)
  have "trace ?s = []"
    by (simp add: mkCase_def)
  then have h3: "drop (length (trace ?s)) (trace (run exApp (cycleTests exApp ?s))) = ?l @ ?r"
    by (simp only: exRun_trace list.size drop_0)
  have h4: "(10, Settle ''tearDown()'' Ok) \<in> set ?l"
    by simp
  have h5: "(110, Schedule ''setUp()'' (Throws ''bad'') 1) \<in> set ?r"
    by simp
  have c: "clock (cycleTests exApp ?s) = 10"
    by (simp add: cycleTests_def runSingleTest_def scheduleAndWaitForIdle_def
      sink_defs chain_defs mkCase_def mkTest_def Let_def)
  note delay = next_setUp_after_delay [where app = exApp, OF h1 h2 h3 h4 h5]
  have a: "(10 :: nat) + 100 \<le> 110"
    using delay by (elim conjE)
  have b: "last (cycle_events exApp ?s) = Timeout CallCycleTests 100"
    using delay by (elim conjE)
  have "timers (cycleTests exApp ?s) = [(clock (cycleTests exApp ?s) + 100, CallCycleTests)]"
    using delay by (elim conjE)
  then have d: "timers (cycleTests exApp ?s) = [(110, CallCycleTests)]"
    by (simp add: c)
  from h1 h2 h3 a b d show ?thesis
    by simp
qed

end
